theory Spec2Isabelle
  imports Main "HOL-Library.Sublist"
begin

section \<open>Strings\<close>

text \<open>
  A JavaScript string is a sequence of UTF-16 code units. The model uses \<^typ>\<open>string\<close>,
  whose characters are the code units \<open>0x00\<close> to \<open>0xFF\<close> (the ASCII and Latin-1 range);
  strings with higher code units are outside the model. On this range
  \<^verbatim>\<open>toLowerCase\<close>, the regular expression class \<^verbatim>\<open>\s\<close> and the escaping done by
  \<^verbatim>\<open>JSON.stringify\<close> are written out below as ECMAScript defines them.
\<close>

abbreviation dquote :: char where
  "dquote \<equiv> CHR 0x22"

abbreviation backslash :: char where
  "backslash \<equiv> CHR 0x5C"

text \<open>\<^verbatim>\<open>String.prototype.includes\<close>: does \<open>sub\<close> occur in \<open>s\<close> as a contiguous substring.\<close>

fun includes_str :: "string \<Rightarrow> string \<Rightarrow> bool" where
  "includes_str [] sub = (sub = [])"
| "includes_str (c # cs) sub = (prefix sub (c # cs) \<or> includes_str cs sub)"

text \<open>
  \<^verbatim>\<open>String.prototype.toLowerCase\<close> on one code unit below \<open>0x100\<close>: the letters A to Z and the
  Latin-1 capitals \<open>0xC0\<close> to \<open>0xDE\<close> (without the multiplication sign \<open>0xD7\<close>) move up by
  \<open>0x20\<close>; every other code unit is its own lower case.
\<close>

definition lower_char :: "char \<Rightarrow> char" where
  "lower_char c =
     (let n = (of_char c :: nat)
      in if (65 \<le> n \<and> n \<le> 90) \<or> (192 \<le> n \<and> n \<le> 222 \<and> n \<noteq> 215)
         then char_of (n + 32) else c)"

definition toLowerCase :: "string \<Rightarrow> string" where
  "toLowerCase s = map lower_char s"

text \<open>
  The class \<^verbatim>\<open>\s\<close> of a JavaScript regular expression, below \<open>0x100\<close>: tab, line feed,
  vertical tab, form feed, carriage return, space and the no-break space \<open>0xA0\<close>.
\<close>

definition is_space :: "char \<Rightarrow> bool" where
  "is_space c = ((of_char c :: nat) \<in> {9, 10, 11, 12, 13, 32, 160})"

text \<open>\<^verbatim>\<open>s.replace(/\s+/g, '_')\<close>: every maximal run of white space becomes one underscore.\<close>

function replace_spaces :: "string \<Rightarrow> string" where
  "replace_spaces [] = []"
| "replace_spaces (c # cs) =
     (if is_space c then CHR ''_'' # replace_spaces (dropWhile is_space cs)
      else c # replace_spaces cs)"
  by pat_completeness auto
termination
  by (relation "measure length") (auto simp: length_dropWhile_le less_Suc_eq_le)

text \<open>\<^verbatim>\<open>s.replace(/\//g, '_')\<close>: every slash becomes an underscore.\<close>

definition replace_slashes :: "string \<Rightarrow> string" where
  "replace_slashes s = map (\<lambda>c. if c = CHR ''/'' then CHR ''_'' else c) s"

text \<open>
  The decimal text of a non-negative integer, as a template literal prints a number
  (the offsets of the pagination stay far below \<open>2^53\<close>, where a JavaScript number is exact).
\<close>

definition digit_char :: "nat \<Rightarrow> char" where
  "digit_char d = ''0123456789'' ! d"

function show_nat :: "nat \<Rightarrow> string" where
  "show_nat n = (if n < 10 then [digit_char n] else show_nat (n div 10) @ [digit_char (n mod 10)])"
  by pat_completeness auto
termination
  by (relation "measure id") auto

declare show_nat.simps [simp del]

section \<open>JSON text of a track\<close>

record Track =
  artist :: string
  title :: string

text \<open>
  \<^verbatim>\<open>JSON.stringify\<close> on a string (ECMAScript \<open>QuoteJSONString\<close>): the double quote, the
  backslash and the five control characters with a short form are escaped by a backslash
  and one character, every other code unit below \<open>0x20\<close> as \<^verbatim>\<open>\u00XX\<close> with lower-case
  hexadecimal digits, and everything else stands for itself.
\<close>

definition hex_digit :: "nat \<Rightarrow> char" where
  "hex_digit d = ''0123456789abcdef'' ! d"

definition json_escape :: "char \<Rightarrow> string" where
  "json_escape c =
     (if c = CHR 0x08 then [backslash, CHR ''b'']
      else if c = CHR 0x09 then [backslash, CHR ''t'']
      else if c = CHR 0x0A then [backslash, CHR ''n'']
      else if c = CHR 0x0C then [backslash, CHR ''f'']
      else if c = CHR 0x0D then [backslash, CHR ''r'']
      else if c = dquote then [backslash, dquote]
      else if c = backslash then [backslash, backslash]
      else if (of_char c :: nat) < 32
        then [backslash, CHR ''u'', CHR ''0'', CHR ''0'',
              hex_digit (of_char c div 16), hex_digit (of_char c mod 16)]
      else [c])"

definition json_quote :: "string \<Rightarrow> string" where
  "json_quote s = dquote # concat (map json_escape s) @ [dquote]"

text \<open>
  \<^verbatim>\<open>JSON.stringify(track)\<close> for an object with the own properties \<open>artist\<close> and \<open>title\<close>,
  created in this order: \<^verbatim>\<open>{"artist":"...","title":"..."}\<close>, without white space.
\<close>

definition stringify :: "Track \<Rightarrow> string" where
  "stringify t =
     CHR ''{'' # json_quote ''artist'' @ CHR '':'' # json_quote (artist t) @
     CHR '','' # json_quote ''title'' @ CHR '':'' # json_quote (title t) @ ''}''"

text \<open>
  \<^verbatim>\<open>JSON.parse\<close>, restricted to the texts it is applied to here, the members of the
  \<^verbatim>\<open>Set<string>\<close> of serialised tracks: an object with the keys \<open>artist\<close> and \<open>title\<close> in
  this order and string values, without white space. \<open>None\<close> stands for the
  \<^verbatim>\<open>SyntaxError\<close> (and for a text outside this fragment or outside the string model).
\<close>

definition hex_value :: "char \<Rightarrow> nat option" where
  "hex_value c =
     (let n = (of_char c :: nat)
      in if 48 \<le> n \<and> n \<le> 57 then Some (n - 48)
         else if 97 \<le> n \<and> n \<le> 102 then Some (n - 87)
         else if 65 \<le> n \<and> n \<le> 70 then Some (n - 55)
         else None)"

definition json_unescape :: "char \<Rightarrow> char option" where
  "json_unescape e =
     (if e = CHR ''b'' then Some (CHR 0x08)
      else if e = CHR ''t'' then Some (CHR 0x09)
      else if e = CHR ''n'' then Some (CHR 0x0A)
      else if e = CHR ''f'' then Some (CHR 0x0C)
      else if e = CHR ''r'' then Some (CHR 0x0D)
      else if e = dquote then Some dquote
      else if e = backslash then Some backslash
      else if e = CHR ''/'' then Some (CHR ''/'')
      else None)"

definition unicode_escape :: "char \<Rightarrow> char \<Rightarrow> char \<Rightarrow> char \<Rightarrow> char option" where
  "unicode_escape a b c d =
     (case (hex_value a, hex_value b, hex_value c, hex_value d) of
        (Some h3, Some h2, Some h1, Some h0) \<Rightarrow>
          (let n = ((h3 * 16 + h2) * 16 + h1) * 16 + h0
           in if n < 256 then Some (char_of n) else None)
      | _ \<Rightarrow> None)"

text \<open>
  The characters of a JSON string after its opening quote: the decoded string and the
  text that follows the closing quote.
\<close>

fun parse_chars :: "string \<Rightarrow> (string \<times> string) option" where
  "parse_chars [] = None"
| "parse_chars (c # cs) =
     (if c = dquote then Some ([], cs)
      else if c = backslash then
        (case cs of
           [] \<Rightarrow> None
         | e # r \<Rightarrow>
             if e = CHR ''u'' then
               (case r of
                  h3 # h2 # h1 # h0 # r' \<Rightarrow>
                    (case unicode_escape h3 h2 h1 h0 of
                       None \<Rightarrow> None
                     | Some u \<Rightarrow> map_option (\<lambda>(s, rest). (u # s, rest)) (parse_chars r'))
                | _ \<Rightarrow> None)
             else
               (case json_unescape e of
                  None \<Rightarrow> None
                | Some u \<Rightarrow> map_option (\<lambda>(s, rest). (u # s, rest)) (parse_chars r)))
      else if (of_char c :: nat) < 32 then None
      else map_option (\<lambda>(s, rest). (c # s, rest)) (parse_chars cs))"

definition expect :: "string \<Rightarrow> string \<Rightarrow> string option" where
  "expect lit s = (if prefix lit s then Some (drop (length lit) s) else None)"

definition parse_track :: "string \<Rightarrow> Track option" where
  "parse_track s =
     (case expect (CHR ''{'' # json_quote ''artist'' @ [CHR '':'', dquote]) s of
        None \<Rightarrow> None
      | Some s1 \<Rightarrow>
          (case parse_chars s1 of
             None \<Rightarrow> None
           | Some (a, s2) \<Rightarrow>
               (case expect (CHR '','' # json_quote ''title'' @ [CHR '':'', dquote]) s2 of
                  None \<Rightarrow> None
                | Some s3 \<Rightarrow>
                    (case parse_chars s3 of
                       None \<Rightarrow> None
                     | Some (t, s4) \<Rightarrow>
                         if s4 = ''}'' then Some \<lparr>artist = a, title = t\<rparr> else None))))"

section \<open>Paths\<close>

text \<open>
  \<^verbatim>\<open>path.join\<close> of Node.js on a POSIX system, for two arguments: the non-empty arguments
  are joined by a slash and the result is normalised. \<^verbatim>\<open>path.normalize\<close> drops empty
  segments and \<open>.\<close>, lets \<open>..\<close> remove the segment before it (or keeps it at the start
  of a relative path), and keeps a leading and a trailing slash.
\<close>

fun split_path :: "string \<Rightarrow> string list" where
  "split_path [] = [[]]"
| "split_path (c # cs) =
     (if c = CHR ''/'' then [] # split_path cs
      else (case split_path cs of [] \<Rightarrow> [[c]] | seg # segs \<Rightarrow> (c # seg) # segs))"

definition push_segment :: "bool \<Rightarrow> string list \<Rightarrow> string \<Rightarrow> string list" where
  "push_segment allowAboveRoot res seg =
     (if seg = [] \<or> seg = ''.'' then res
      else if seg = ''..'' then
        (if res \<noteq> [] \<and> last res \<noteq> ''..'' then butlast res
         else if allowAboveRoot then res @ [''..''] else res)
      else res @ [seg])"

fun join_segments :: "string list \<Rightarrow> string" where
  "join_segments [] = []"
| "join_segments [seg] = seg"
| "join_segments (seg # segs) = seg @ CHR ''/'' # join_segments segs"

definition normalizeString :: "string \<Rightarrow> bool \<Rightarrow> string" where
  "normalizeString p allowAboveRoot =
     join_segments (foldl (push_segment allowAboveRoot) [] (split_path p))"

definition normalize :: "string \<Rightarrow> string" where
  "normalize p =
     (if p = [] then ''.''
      else
        let isAbsolute = (hd p = CHR ''/'');
            trailingSeparator = (last p = CHR ''/'');
            q = normalizeString p (\<not> isAbsolute)
        in if q = [] then (if isAbsolute then ''/'' else if trailingSeparator then ''./'' else ''.'')
           else (if isAbsolute then ''/'' else []) @ q @ (if trailingSeparator then ''/'' else []))"

definition path_join :: "string \<Rightarrow> string \<Rightarrow> string" where
  "path_join a b =
     (if a = [] \<and> b = [] then ''.''
      else normalize (if a = [] then b else if b = [] then a else a @ CHR ''/'' # b))"

section \<open>Data model\<close>

record Show =
  name :: string
  path :: string

record Link =
  rel :: string
  href :: string

record Episode =
  name :: string
  links :: "Link list"


text \<open>
  What a file holds, as \<^verbatim>\<open>JSON.parse\<close> reads it: a text that is not JSON, an array of
  tracks (objects with the keys \<open>artist\<close> and \<open>title\<close> in this order, the form this program
  writes), or an object from names to booleans (the form of the checkpoint file).
  Other JSON values are excluded by the types the source declares for what it reads.
\<close>

datatype file_data =
    Garbage
  | TrackArray "Track list"
  | CheckpointObject "string \<rightharpoonup> bool"

datatype error =
    RequestFailed string
  | NotAnArray
  | SyntaxError
  | WriteFailed string
  | MkdirFailed string

text \<open>
  The world outside the program, fixed during a run: what a \<^verbatim>\<open>GET\<close> on a URL answers
  for an episode page and for a tracklist (the field \<open>results\<close> of the response, at the
  type the source declares; \<open>None\<close> when \<^verbatim>\<open>axios.get\<close> or the access to the response
  throws), and which paths \<^verbatim>\<open>fs.writeFile\<close> and \<^verbatim>\<open>fs.mkdir\<close> accept.
\<close>

record env =
  episodes_page :: "string \<Rightarrow> Episode list option"
  tracklist_page :: "string \<Rightarrow> Track list option"
  can_write :: "string \<Rightarrow> bool"
  can_mkdir :: "string \<Rightarrow> bool"

text \<open>
  The mutable state: the files, the URLs requested so far (oldest first), and the two
  objects that \<open>main\<close> shares with \<open>processShow\<close>, the checkpoint and the running total.
  Console output, the rate limiter and the delay between pages are not modelled.
\<close>

record state =
  files :: "string \<rightharpoonup> file_data"
  requests :: "string list"
  checkpoint :: "string \<rightharpoonup> bool"
  count :: nat

section \<open>The set of serialised tracks\<close>

text \<open>
  A JavaScript \<^verbatim>\<open>Set<string>\<close> keeps its members in insertion order, each once:
  a list without repetition. \<^verbatim>\<open>Array.from\<close> of the set is the list itself.
\<close>

definition set_add :: "string list \<Rightarrow> string \<Rightarrow> string list" where
  "set_add s x = (if x \<in> set s then s else s @ [x])"

definition new_Set :: "string list \<Rightarrow> string list" where
  "new_Set xs = foldl set_add [] xs"

text \<open>\<^verbatim>\<open>Array.from(allTracks).map(track => JSON.parse(track))\<close>; a text that does not parse throws.\<close>

fun parse_all :: "string list \<Rightarrow> error + Track list" where
  "parse_all [] = Inr []"
| "parse_all (x # xs) =
     (case parse_track x of
        None \<Rightarrow> Inl SyntaxError
      | Some t \<Rightarrow> (case parse_all xs of Inl e \<Rightarrow> Inl e | Inr ts \<Rightarrow> Inr (t # ts)))"

section \<open>NTSScraperService\<close>

definition baseUrl :: string where
  "baseUrl = ''https://www.nts.live/api/v2''"

definition limit :: nat where
  "limit = 12"

definition episodes_url :: "string \<Rightarrow> nat \<Rightarrow> string" where
  "episodes_url showPath offset =
     baseUrl @ showPath @ ''/episodes?offset='' @ show_nat offset @ ''&limit='' @ show_nat limit"

text \<open>
  The \<^verbatim>\<open>while (true)\<close> loop of \<open>fetchAllEpisodes\<close>. It ends only at an empty page, or
  by the exception of a failed request; \<open>None\<close> is the loop that never ends.
\<close>

partial_function (option) fetch_loop ::
  "env \<Rightarrow> string \<Rightarrow> Episode list \<Rightarrow> nat \<Rightarrow> state \<Rightarrow> ((error + Episode list) \<times> state) option"
where
  "fetch_loop env showPath allEpisodes offset st =
     (let url = episodes_url showPath offset;
          st' = st\<lparr>requests := requests st @ [url]\<rparr>
      in case episodes_page env url of
           None \<Rightarrow> Some (Inl (RequestFailed url), st')
         | Some episodes \<Rightarrow>
             if length episodes = 0 then Some (Inr allEpisodes, st')
             else fetch_loop env showPath (allEpisodes @ episodes) (offset + limit) st')"

definition fetchAllEpisodes ::
  "env \<Rightarrow> string \<Rightarrow> bool \<Rightarrow> state \<Rightarrow> ((error + Episode list) \<times> state) option"
where
  "fetchAllEpisodes env showPath isGuestShow st =
     (if isGuestShow then
        Some (Inr [\<lparr>name = '''',
                    links = [\<lparr>rel = ''tracklist'', href = baseUrl @ showPath @ ''/tracklist''\<rparr>]\<rparr>],
              st)
      else fetch_loop env showPath [] 0 st)"

definition fetchTracklist :: "env \<Rightarrow> string \<Rightarrow> state \<Rightarrow> (error + Track list) \<times> state" where
  "fetchTracklist env tracklistUrl st =
     (let st' = st\<lparr>requests := requests st @ [tracklistUrl]\<rparr>
      in case tracklist_page env tracklistUrl of
           None \<Rightarrow> (Inl (RequestFailed tracklistUrl), st')
         | Some results \<Rightarrow>
             (Inr (map (\<lambda>track. \<lparr>artist = artist track, title = title track\<rparr>) results), st'))"

section \<open>ShowProcessor\<close>

text \<open>
  The loop of \<open>processShow\<close> over the episodes. The tracklist link is the first link whose
  \<open>rel\<close> is \<open>tracklist\<close>; an episode without such a link, or whose link has the empty
  \<open>href\<close> (which is falsy), is passed over. A failed request ends the loop by its exception.
\<close>

fun process_episodes ::
  "env \<Rightarrow> Episode list \<Rightarrow> string list \<Rightarrow> state \<Rightarrow> (error + string list) \<times> state"
where
  "process_episodes env [] allTracks st = (Inr allTracks, st)"
| "process_episodes env (episode # episodes) allTracks st =
     (case find (\<lambda>link. rel link = ''tracklist'') (links episode) of
        None \<Rightarrow> process_episodes env episodes allTracks st
      | Some link \<Rightarrow>
          if href link \<noteq> [] then
            (case fetchTracklist env (href link) st of
               (Inl e, st') \<Rightarrow> (Inl e, st')
             | (Inr tracklist, st') \<Rightarrow>
                 process_episodes env episodes
                   (foldl (\<lambda>s track. set_add s (stringify track)) allTracks tracklist) st')
          else process_episodes env episodes allTracks st)"

definition sanitize :: "string \<Rightarrow> string" where
  "sanitize showName = replace_slashes (replace_spaces (toLowerCase showName))"

definition output_path :: "string \<Rightarrow> string \<Rightarrow> string" where
  "output_path outputDir showName = path_join outputDir (sanitize showName @ ''_tracklist.json'')"

text \<open>
  \<open>saveTracklist\<close>: a file that is absent or does not parse gives the empty array; a file
  that parses to an object has no \<open>map\<close> method, and the \<^verbatim>\<open>TypeError\<close> leaves the function.
  The result is the state after the write, or the exception; the state is then unchanged
  (a write that fails is taken to leave the file as it was).
\<close>

definition saveTracklist :: "env \<Rightarrow> string \<Rightarrow> Track list \<Rightarrow> string \<Rightarrow> state \<Rightarrow> error + state" where
  "saveTracklist env showName tracks outputDir st =
     (let filePath = output_path outputDir showName
      in case (case files st filePath of
                 None \<Rightarrow> Inr []
               | Some Garbage \<Rightarrow> Inr []
               | Some (TrackArray existingTracks) \<Rightarrow> Inr existingTracks
               | Some (CheckpointObject obj) \<Rightarrow> Inl NotAnArray) of
           Inl e \<Rightarrow> Inl e
         | Inr existingTracks \<Rightarrow>
             (let allTracks = foldl (\<lambda>s track. set_add s (stringify track))
                                (new_Set (map stringify existingTracks)) tracks
              in case parse_all allTracks of
                   Inl e \<Rightarrow> Inl e
                 | Inr deduplicatedTracks \<Rightarrow>
                     if can_write env filePath
                     then Inr (st\<lparr>files := (files st)(filePath \<mapsto> TrackArray deduplicatedTracks)\<rparr>)
                     else Inl (WriteFailed filePath)))"



definition checkpoint_set :: "(string \<rightharpoonup> bool) \<Rightarrow> string \<Rightarrow> (string \<rightharpoonup> bool)" where
  "checkpoint_set obj n = (if n = ''__proto__'' \<and> obj n = None then obj else obj(n \<mapsto> True))"

text \<open>
  The \<^verbatim>\<open>try\<close> block of \<open>processShow\<close>: the exception that leaves it, if any, and the state
  at that moment. The parameters \<open>showIndex\<close> and \<open>totalShows\<close> only feed the console.
\<close>

definition processShow_try :: "env \<Rightarrow> Show \<Rightarrow> string \<Rightarrow> state \<Rightarrow> ((error + unit) \<times> state) option" where
  "processShow_try env show outputDir st =
     (let isGuestShow = includes_str (path show) ''/guests/''
      in case fetchAllEpisodes env (path show) isGuestShow st of
           None \<Rightarrow> None
         | Some (Inl e, st1) \<Rightarrow> Some (Inl e, st1)
         | Some (Inr episodes, st1) \<Rightarrow>
             (case process_episodes env episodes [] st1 of
                (Inl e, st2) \<Rightarrow> Some (Inl e, st2)
              | (Inr allTracks, st2) \<Rightarrow>
                  (case parse_all allTracks of
                     Inl e \<Rightarrow> Some (Inl e, st2)
                   | Inr deduplicatedTracks \<Rightarrow>
                       (case saveTracklist env (Show.name show) deduplicatedTracks outputDir st2 of
                          Inl e \<Rightarrow> Some (Inl e, st2)
                        | Inr st3 \<Rightarrow>
                            (let trackCount = length deduplicatedTracks;
                                 st4 = st3\<lparr>count := count st3 + trackCount\<rparr>;
                                 st5 = st4\<lparr>checkpoint := checkpoint_set (checkpoint st4) (Show.name show)\<rparr>
                             in if can_write env ''checkpoint.json''
                                then Some (Inr (),
                                       st5\<lparr>files := (files st5)(''checkpoint.json'' \<mapsto>
                                                        CheckpointObject (checkpoint st5))\<rparr>)
                                else Some (Inl (WriteFailed ''checkpoint.json''), st5))))))"


section \<open>main\<close>

definition outputDir :: string where
  "outputDir = ''nts_tracklists''"





section \<open>Reference notions for the properties\<close>

text \<open>
  Deduplication as the specification words it, on tracks compared field by field:
  \<open>add\<close> inserts a track that is not yet a member, and \<open>merge\<close> adds the existing
  tracks and then the new ones to the empty set.
\<close>

definition spec_add :: "Track list \<Rightarrow> Track \<Rightarrow> Track list" where
  "spec_add s t = (if t \<in> set s then s else s @ [t])"

definition spec_merge :: "Track list \<Rightarrow> Track list \<Rightarrow> Track list" where
  "spec_merge existingTracks newTracks = foldl spec_add (foldl spec_add [] existingTracks) newTracks"

text \<open>
  The answer of the upstream to the request for the page of a show at a given offset, and
  the test that this answer is a page with at least one episode.
\<close>

definition page :: "env \<Rightarrow> string \<Rightarrow> nat \<Rightarrow> Episode list option" where
  "page env showPath offset = episodes_page env (episodes_url showPath offset)"

definition nonempty_page :: "env \<Rightarrow> string \<Rightarrow> nat \<Rightarrow> bool" where
  "nonempty_page env showPath offset =
     (case page env showPath offset of None \<Rightarrow> False | Some episodes \<Rightarrow> episodes \<noteq> [])"

definition page_episodes :: "env \<Rightarrow> string \<Rightarrow> nat \<Rightarrow> Episode list" where
  "page_episodes env showPath offset =
     (case page env showPath offset of None \<Rightarrow> [] | Some episodes \<Rightarrow> episodes)"

text \<open>
  The URL at which the tracks of an episode are fetched, if there is one; the tracks the
  upstream lists for an episode and for a list of episodes; and the requests for them.
\<close>

definition tracklist_url :: "Episode \<Rightarrow> string option" where
  "tracklist_url episode =
     (case find (\<lambda>link. rel link = ''tracklist'') (links episode) of
        None \<Rightarrow> None
      | Some link \<Rightarrow> if href link = [] then None else Some (href link))"

definition episode_tracks :: "env \<Rightarrow> Episode \<Rightarrow> Track list" where
  "episode_tracks env episode =
     (case tracklist_url episode of
        None \<Rightarrow> []
      | Some url \<Rightarrow> (case tracklist_page env url of None \<Rightarrow> [] | Some tracks \<Rightarrow> tracks))"

definition fetched_tracks :: "env \<Rightarrow> Episode list \<Rightarrow> Track list" where
  "fetched_tracks env episodes = concat (map (episode_tracks env) episodes)"

definition tracklist_urls :: "Episode list \<Rightarrow> string list" where
  "tracklist_urls episodes = concat (map (\<lambda>e. case tracklist_url e of None \<Rightarrow> [] | Some u \<Rightarrow> [u]) episodes)"

text \<open>The tracks of an existing output file: none when it is absent or does not parse.\<close>

definition existing_tracks :: "(string \<rightharpoonup> file_data) \<Rightarrow> string \<Rightarrow> Track list" where
  "existing_tracks fs filePath = (case fs filePath of Some (TrackArray tracks) \<Rightarrow> tracks | _ \<Rightarrow> [])"

text \<open>A path segment that names a file or a directory directly.\<close>

definition plain_segment :: "string \<Rightarrow> bool" where
  "plain_segment seg = (seg \<noteq> [] \<and> seg \<noteq> ''.'' \<and> seg \<noteq> ''..'' \<and> CHR ''/'' \<notin> set seg)"

text \<open>
  The segments of a normalised relative path: some \<open>..\<close> at the front, then plain segments.
\<close>

definition normal_stack :: "string list \<Rightarrow> bool" where
  "normal_stack s = (\<exists>d ns. s = d @ ns \<and> set d \<subseteq> {''..''} \<and> (\<forall>x\<in>set ns. plain_segment x))"






section \<open>Example inputs\<close>

text \<open>
  An upstream for the show \<open>/shows/foo\<close> with twelve episodes at offset 0, twelve at
  offset 12 and none at offset 24; every episode links to one tracklist.
\<close>

definition example_episode :: "nat \<Rightarrow> Episode" where
  "example_episode i =
     \<lparr>name = ''episode '' @ show_nat i,
      links = [\<lparr>rel = ''tracklist'', href = ''https://www.nts.live/api/v2/t/'' @ show_nat i\<rparr>]\<rparr>"

definition paged_env :: env where
  "paged_env =
     \<lparr>episodes_page = (\<lambda>url.
        if url = ''https://www.nts.live/api/v2/shows/foo/episodes?offset=0&limit=12''
          then Some (map example_episode [0..<12])
        else if url = ''https://www.nts.live/api/v2/shows/foo/episodes?offset=12&limit=12''
          then Some (map example_episode [12..<24])
        else if url = ''https://www.nts.live/api/v2/shows/foo/episodes?offset=24&limit=12''
          then Some []
        else None),
      tracklist_page = (\<lambda>url. None),
      can_write = (\<lambda>p. True),
      can_mkdir = (\<lambda>p. True)\<rparr>"

definition empty_state :: state where
  "empty_state = \<lparr>files = Map.empty, requests = [], checkpoint = Map.empty, count = 0\<rparr>"

text \<open>
  Three guest shows. The tracklist of \<open>Good\<close> lists one track twice and another once,
  the tracklist of \<open>Other\<close> lists one track, and the request for the tracklist of \<open>Bad\<close>
  fails.
\<close>

definition track_A :: Track where
  "track_A = \<lparr>artist = ''A'', title = ''T''\<rparr>"

definition track_B :: Track where
  "track_B = \<lparr>artist = ''B'', title = ''U''\<rparr>"

definition track_C :: Track where
  "track_C = \<lparr>artist = ''C'', title = ''V''\<rparr>"

definition good_show :: Show where
  "good_show = \<lparr>Show.name = ''Good'', path = ''/guests/good''\<rparr>"

definition bad_show :: Show where
  "bad_show = \<lparr>Show.name = ''Bad'', path = ''/guests/bad''\<rparr>"

definition other_show :: Show where
  "other_show = \<lparr>Show.name = ''Other'', path = ''/guests/other''\<rparr>"

definition guest_env :: env where
  "guest_env =
     \<lparr>episodes_page = (\<lambda>url. None),
      tracklist_page = (\<lambda>url.
        if url = ''https://www.nts.live/api/v2/guests/good/tracklist''
          then Some [track_A, track_A, track_B]
        else if url = ''https://www.nts.live/api/v2/guests/other/tracklist''
          then Some [track_C]
        else None),
      can_write = (\<lambda>p. True),
      can_mkdir = (\<lambda>p. True)\<rparr>"


text \<open>Two episodes: one without a tracklist link, one that links to the tracklist of \<open>Good\<close>.\<close>

definition bare_episode :: Episode where
  "bare_episode = \<lparr>name = ''bare'', links = [\<lparr>rel = ''self'', href = ''https://www.nts.live/x''\<rparr>]\<rparr>"

definition linked_episode :: Episode where
  "linked_episode =
     \<lparr>name = ''linked'',
      links = [\<lparr>rel = ''tracklist'', href = ''https://www.nts.live/api/v2/guests/good/tracklist''\<rparr>]\<rparr>"







section \<open>Serialised tracks: parsing undoes serialisation\<close>

lemma hex_value_hex_digit: "d < 16 \<Longrightarrow> hex_value (hex_digit d) = Some d"
proof -
  assume "d < 16"
  then consider "d = 0" | "d = 1" | "d = 2" | "d = 3" | "d = 4" | "d = 5" | "d = 6" | "d = 7"
    | "d = 8" | "d = 9" | "d = 10" | "d = 11" | "d = 12" | "d = 13" | "d = 14" | "d = 15"
    by atomize_elim presburger
  then show ?thesis
    by cases (simp_all add: hex_digit_def hex_value_def)
qed

lemma unicode_escape_control:
  assumes "(of_char c :: nat) < 32"
  shows "unicode_escape (CHR ''0'') (CHR ''0'')
           (hex_digit (of_char c div 16)) (hex_digit (of_char c mod 16)) = Some c"
proof -
  have hi: "(of_char c :: nat) div 16 < 16" using assms by simp
  have lo: "(of_char c :: nat) mod 16 < 16" by simp
  have zero: "hex_value (CHR ''0'') = Some 0" by (simp add: hex_value_def)
  have small: "(of_char c :: nat) < 256" using assms by simp
  show ?thesis
    unfolding unicode_escape_def
    by (simp add: zero hex_value_hex_digit[OF hi] hex_value_hex_digit[OF lo] small)
qed

lemma parse_chars_escape:
  "parse_chars (json_escape c @ s) = map_option (\<lambda>(t, rest). (c # t, rest)) (parse_chars s)"
proof -
  consider "c = CHR 0x08" | "c = CHR 0x09" | "c = CHR 0x0A" | "c = CHR 0x0C" | "c = CHR 0x0D"
    | "c = dquote" | "c = backslash"
    | "c \<notin> {CHR 0x08, CHR 0x09, CHR 0x0A, CHR 0x0C, CHR 0x0D, dquote, backslash}"
      "(of_char c :: nat) < 32"
    | "c \<notin> {CHR 0x08, CHR 0x09, CHR 0x0A, CHR 0x0C, CHR 0x0D, dquote, backslash}"
      "\<not> (of_char c :: nat) < 32"
    by blast
  then show ?thesis
  proof cases
    case 8
    then show ?thesis by (simp add: json_escape_def unicode_escape_control)
  next
    case 9
    then show ?thesis by (simp add: json_escape_def)
  qed (simp_all add: json_escape_def json_unescape_def)
qed

lemma parse_chars_quoted:
  "parse_chars (concat (map json_escape s) @ dquote # rest) = Some (s, rest)"
  by (induction s) (simp_all add: parse_chars_escape)

lemma expect_append: "expect lit (lit @ s) = Some s"
  by (simp add: expect_def)

lemma parse_track_stringify: "parse_track (stringify t) = Some t"
proof -
  have "stringify t =
    (CHR ''{'' # json_quote ''artist'' @ [CHR '':'', dquote]) @
      (concat (map json_escape (artist t)) @ dquote #
        ((CHR '','' # json_quote ''title'' @ [CHR '':'', dquote]) @
         (concat (map json_escape (title t)) @ dquote # ''}'')))"
    by (simp add: stringify_def json_quote_def)
  then show ?thesis
    unfolding parse_track_def
    by (simp only: expect_append parse_chars_quoted option.case prod.case) simp
qed

lemma stringify_inj: "stringify a = stringify b \<Longrightarrow> a = b"
proof -
  assume "stringify a = stringify b"
  then have "parse_track (stringify a) = parse_track (stringify b)" by simp
  then show "a = b" by (simp add: parse_track_stringify)
qed

lemma parse_all_stringify: "parse_all (map stringify ts) = Inr ts"
  by (induction ts) (simp_all add: parse_track_stringify)

section \<open>The set of strings against the set of tracks\<close>

lemma set_add_stringify: "set_add (map stringify s) (stringify t) = map stringify (spec_add s t)"
  by (auto simp: set_add_def spec_add_def dest: stringify_inj)

lemma foldl_set_add_stringify:
  "foldl (\<lambda>s track. set_add s (stringify track)) (map stringify s) ts
     = map stringify (foldl spec_add s ts)"
  by (induction ts arbitrary: s) (simp_all add: set_add_stringify)

lemma foldl_set_add_map:
  "foldl set_add (map stringify s) (map stringify ts) = map stringify (foldl spec_add s ts)"
  by (induction ts arbitrary: s) (simp_all add: set_add_stringify)

lemma new_Set_stringify: "new_Set (map stringify ts) = map stringify (foldl spec_add [] ts)"
  using foldl_set_add_map [of "[]" ts] by (simp add: new_Set_def)









section \<open>Pagination\<close>

lemma fetch_loop_step:
  assumes "page env p off = Some es" "es \<noteq> []"
  shows "fetch_loop env p acc off st
       = fetch_loop env p (acc @ es) (off + limit) (st\<lparr>requests := requests st @ [episodes_url p off]\<rparr>)"
  using assms by (subst fetch_loop.simps) (simp add: page_def Let_def)

lemma fetch_loop_end:
  assumes "page env p off = Some []"
  shows "fetch_loop env p acc off st
       = Some (Inr acc, st\<lparr>requests := requests st @ [episodes_url p off]\<rparr>)"
  using assms by (subst fetch_loop.simps) (simp add: page_def Let_def)

lemma fetch_loop_fail:
  assumes "page env p off = None"
  shows "fetch_loop env p acc off st
       = Some (Inl (RequestFailed (episodes_url p off)), st\<lparr>requests := requests st @ [episodes_url p off]\<rparr>)"
  using assms by (subst fetch_loop.simps) (simp add: page_def Let_def)

lemma nonempty_pageD: "nonempty_page env p off \<Longrightarrow> \<exists>es. page env p off = Some es \<and> es \<noteq> [] \<and> page_episodes env p off = es"
  by (auto simp: nonempty_page_def page_episodes_def split: option.splits)

lemma fetch_loop_pages:
  assumes "\<forall>i<k. nonempty_page env p (off + limit * i)"
  shows "fetch_loop env p acc off st
       = fetch_loop env p (acc @ concat (map (\<lambda>i. page_episodes env p (off + limit * i)) [0..<k]))
           (off + limit * k)
           (st\<lparr>requests := requests st @ map (\<lambda>i. episodes_url p (off + limit * i)) [0..<k]\<rparr>)"
  using assms
proof (induction k)
  case 0
  then show ?case by simp
next
  case (Suc k)
  then have ih: "fetch_loop env p acc off st
       = fetch_loop env p (acc @ concat (map (\<lambda>i. page_episodes env p (off + limit * i)) [0..<k]))
           (off + limit * k)
           (st\<lparr>requests := requests st @ map (\<lambda>i. episodes_url p (off + limit * i)) [0..<k]\<rparr>)"
    by simp
  from Suc.prems have "nonempty_page env p (off + limit * k)" by simp
  then obtain es where es: "page env p (off + limit * k) = Some es" "es \<noteq> []"
    "page_episodes env p (off + limit * k) = es"
    using nonempty_pageD by blast
  show ?case
    by (simp add: ih fetch_loop_step [OF es(1,2)] es(3) ac_simps)
qed

lemma fetch_loop_Some_stops:
  assumes "fetch_loop env p acc off st = Some y"
  shows "\<exists>j. \<not> nonempty_page env p (off + limit * j)"
proof (rule fetch_loop.raw_induct
    [where P = "\<lambda>env p acc off st y. \<exists>j. \<not> nonempty_page env p (off + limit * j)", OF _ assms],
    goal_cases)
  case (1 loop env p acc off st y)
  show ?case
  proof (cases "nonempty_page env p off")
    case False
    then have "\<not> nonempty_page env p (off + limit * 0)" by simp
    then show ?thesis by blast
  next
    case True
    then obtain es where es: "page env p off = Some es" "es \<noteq> []"
      using nonempty_pageD by blast
    with 1(2) have "loop env p (acc @ es) (off + limit) (st\<lparr>requests := requests st @ [episodes_url p off]\<rparr>) = Some y"
      by (simp add: page_def Let_def)
    from 1(1) [OF this] obtain j where "\<not> nonempty_page env p (off + limit + limit * j)" by blast
    then have "\<not> nonempty_page env p (off + limit * Suc j)" by (simp add: add.assoc)
    then show ?thesis by blast
  qed
qed

lemma fetch_loop_diverges:
  "\<forall>j. nonempty_page env p (off + limit * j) \<Longrightarrow> fetch_loop env p acc off st = None"
  using fetch_loop_Some_stops [of env p acc off st] by (cases "fetch_loop env p acc off st") auto

lemma show_nat_digit: "n < 10 \<Longrightarrow> show_nat n = [digit_char n]"
  by (subst show_nat.simps) simp

lemma show_nat_0: "show_nat 0 = ''0''"
  by (simp add: show_nat_digit digit_char_def)

lemma show_nat_12: "show_nat 12 = ''12''"
  by (subst show_nat.simps) (simp add: show_nat_digit digit_char_def)

lemma show_nat_24: "show_nat 24 = ''24''"
  by (subst show_nat.simps) (simp add: show_nat_digit digit_char_def)

text \<open>
  C2. For a show that is not a guest show, \<open>fetchAllEpisodes\<close> asks for the pages at the
  offsets 0, 12, 24, ... with the limit 12 and appends the pages in this order. When the
  pages at the first \<open>k\<close> offsets hold episodes and the next page is empty, it returns the
  episodes of these \<open>k\<close> pages after exactly \<open>k + 1\<close> requests. When no page is ever empty
  (and no request fails) it never returns; and it returns a list of episodes only if it
  has met an empty page.
\<close>

theorem fetchAllEpisodes_pagination:
  "limit = 12
   \<and> episodes_url p off = baseUrl @ p @ ''/episodes?offset='' @ show_nat off @ ''&limit=12''
   \<and> ((\<forall>i<k. nonempty_page env p (limit * i)) \<and> page env p (limit * k) = Some [] \<longrightarrow>
        fetchAllEpisodes env p False st =
          Some (Inr (concat (map (\<lambda>i. page_episodes env p (limit * i)) [0..<k])),
                st\<lparr>requests := requests st @ map (\<lambda>i. episodes_url p (limit * i)) [0..<Suc k]\<rparr>))
   \<and> ((\<forall>i. nonempty_page env p (limit * i)) \<longrightarrow> fetchAllEpisodes env p False st = None)
   \<and> (fetchAllEpisodes env p False st = Some (Inr episodes, st') \<longrightarrow>
        (\<exists>n. (\<forall>i<n. nonempty_page env p (limit * i)) \<and> page env p (limit * n) = Some []))"
proof (intro conjI impI)
  show "limit = 12" by (simp add: limit_def)
  show "episodes_url p off = baseUrl @ p @ ''/episodes?offset='' @ show_nat off @ ''&limit=12''"
    by (simp add: episodes_url_def limit_def show_nat_12)
next
  assume a: "(\<forall>i<k. nonempty_page env p (limit * i)) \<and> page env p (limit * k) = Some []"
  then have "\<forall>i<k. nonempty_page env p (0 + limit * i)" by simp
  from fetch_loop_pages [OF this, of "[]" st] a
  show "fetchAllEpisodes env p False st =
          Some (Inr (concat (map (\<lambda>i. page_episodes env p (limit * i)) [0..<k])),
                st\<lparr>requests := requests st @ map (\<lambda>i. episodes_url p (limit * i)) [0..<Suc k]\<rparr>)"
    by (simp add: fetchAllEpisodes_def fetch_loop_end)
next
  assume "\<forall>i. nonempty_page env p (limit * i)"
  then have "\<forall>j. nonempty_page env p (0 + limit * j)" by simp
  from fetch_loop_diverges [OF this]
  show "fetchAllEpisodes env p False st = None"
    by (simp add: fetchAllEpisodes_def)
next
  assume r: "fetchAllEpisodes env p False st = Some (Inr episodes, st')"
  then have loop: "fetch_loop env p [] 0 st = Some (Inr episodes, st')"
    by (simp add: fetchAllEpisodes_def)
  from fetch_loop_Some_stops [OF loop] have ex: "\<exists>j. \<not> nonempty_page env p (limit * j)" by simp
  define n where "n = (LEAST j. \<not> nonempty_page env p (limit * j))"
  have stop: "\<not> nonempty_page env p (limit * n)"
    unfolding n_def using ex by (rule LeastI_ex)
  have before: "\<forall>i<n. nonempty_page env p (limit * i)"
    unfolding n_def using not_less_Least by blast
  then have "\<forall>i<n. nonempty_page env p (0 + limit * i)" by simp
  note run = fetch_loop_pages [OF this, of "[]" st]
  have "page env p (limit * n) \<noteq> None"
  proof
    assume "page env p (limit * n) = None"
    then have "page env p (0 + limit * n) = None" by simp
    from fetch_loop_fail [OF this] run loop show False by simp
  qed
  with stop have "page env p (limit * n) = Some []"
    by (auto simp: nonempty_page_def split: option.splits)
  with before show "\<exists>n. (\<forall>i<n. nonempty_page env p (limit * i)) \<and> page env p (limit * n) = Some []"
    by blast
qed

text \<open>
  The upstream with pages of twelve episodes at the offsets 0 and 12 and an empty page at
  the offset 24: exactly 24 episodes are returned, after exactly 3 requests.
\<close>

theorem fetchAllEpisodes_pagination_witness:
  "fetchAllEpisodes paged_env ''/shows/foo'' False empty_state =
     Some (Inr (map example_episode [0..<12] @ map example_episode [12..<24]),
           empty_state\<lparr>requests :=
             [''https://www.nts.live/api/v2/shows/foo/episodes?offset=0&limit=12'',
              ''https://www.nts.live/api/v2/shows/foo/episodes?offset=12&limit=12'',
              ''https://www.nts.live/api/v2/shows/foo/episodes?offset=24&limit=12'']\<rparr>)
   \<and> length (map example_episode [0..<12] @ map example_episode [12..<24]) = 24"
proof -
  have u0: "episodes_url ''/shows/foo'' 0
      = ''https://www.nts.live/api/v2/shows/foo/episodes?offset=0&limit=12''"
    by (simp add: episodes_url_def baseUrl_def limit_def show_nat_0 show_nat_12)
  have u12: "episodes_url ''/shows/foo'' 12
      = ''https://www.nts.live/api/v2/shows/foo/episodes?offset=12&limit=12''"
    by (simp add: episodes_url_def baseUrl_def limit_def show_nat_12)
  have u24: "episodes_url ''/shows/foo'' 24
      = ''https://www.nts.live/api/v2/shows/foo/episodes?offset=24&limit=12''"
    by (simp add: episodes_url_def baseUrl_def limit_def show_nat_12 show_nat_24)
  have p0: "page paged_env ''/shows/foo'' 0 = Some (map example_episode [0..<12])"
    by (simp add: page_def u0 paged_env_def)
  have p12: "page paged_env ''/shows/foo'' 12 = Some (map example_episode [12..<24])"
    by (simp add: page_def u12 paged_env_def)
  have p24: "page paged_env ''/shows/foo'' 24 = Some []"
    by (simp add: page_def u24 paged_env_def)
  have full: "\<forall>i<2. nonempty_page paged_env ''/shows/foo'' (limit * i)"
  proof (intro allI impI)
    fix i :: nat
    assume "i < 2"
    then consider "i = 0" | "i = 1" by linarith
    then show "nonempty_page paged_env ''/shows/foo'' (limit * i)"
      by cases (simp_all add: nonempty_page_def limit_def p0 p12)
  qed
  have last: "page paged_env ''/shows/foo'' (limit * 2) = Some []"
    by (simp add: limit_def p24)
  have two: "[0..<2] = [0, Suc 0]" "[0..<Suc 2] = [0, Suc 0, 2]" "[0..<3] = [0, Suc 0, 2]"
    by (simp_all add: eval_nat_numeral)
  have run: "fetchAllEpisodes paged_env ''/shows/foo'' False empty_state =
      Some (Inr (concat (map (\<lambda>i. page_episodes paged_env ''/shows/foo'' (limit * i)) [0..<2])),
            empty_state\<lparr>requests := requests empty_state @
              map (\<lambda>i. episodes_url ''/shows/foo'' (limit * i)) [0..<Suc 2]\<rparr>)"
    using fetchAllEpisodes_pagination
      [where p = "''/shows/foo''" and k = 2 and env = paged_env and st = empty_state]
      full last
    by blast
  have eps: "concat (map (\<lambda>i. page_episodes paged_env ''/shows/foo'' (limit * i)) [0..<2])
      = map example_episode [0..<12] @ map example_episode [12..<24]"
    by (simp add: two page_episodes_def limit_def p0 p12)
  have urls: "map (\<lambda>i. episodes_url ''/shows/foo'' (limit * i)) [0..<Suc 2]
      = [''https://www.nts.live/api/v2/shows/foo/episodes?offset=0&limit=12'',
         ''https://www.nts.live/api/v2/shows/foo/episodes?offset=12&limit=12'',
         ''https://www.nts.live/api/v2/shows/foo/episodes?offset=24&limit=12'']"
    by (simp add: two limit_def u0 u12 u24)
  have "requests empty_state = []" by (simp add: empty_state_def)
  with run eps urls show ?thesis by simp
qed

text \<open>
  C5. With \<open>isGuestShow\<close> set, \<open>fetchAllEpisodes\<close> returns exactly one synthetic episode
  whose single link has the \<open>rel\<close> \<open>tracklist\<close> and the \<open>href\<close> made of the base URL, the
  path of the show and \<open>/tracklist\<close>; the state, and with it the list of requests, is the
  one it was given: no request is issued.
\<close>

theorem guest_show_shortcut:
  "fetchAllEpisodes env showPath True st =
     Some (Inr [\<lparr>name = '''',
                 links = [\<lparr>rel = ''tracklist'',
                           href = ''https://www.nts.live/api/v2'' @ showPath @ ''/tracklist''\<rparr>]\<rparr>],
           st)
   \<and> map_option (\<lambda>result. requests (snd result)) (fetchAllEpisodes env showPath True st)
       = Some (requests st)"
  by (simp add: fetchAllEpisodes_def baseUrl_def)

section \<open>The episode loop and the frame of the fetchers\<close>

lemma fetchTracklist_state:
  "snd (fetchTracklist env u st) = st\<lparr>requests := requests st @ [u]\<rparr>"
  by (simp add: fetchTracklist_def Let_def split: option.splits)

lemma fetchTracklist_result:
  "fst (fetchTracklist env u st) =
     (case tracklist_page env u of None \<Rightarrow> Inl (RequestFailed u) | Some ts \<Rightarrow> Inr ts)"
  by (simp add: fetchTracklist_def Let_def map_idI split: option.splits)

lemma fetchTracklist_eq:
  "fetchTracklist env u st =
     (case tracklist_page env u of None \<Rightarrow> Inl (RequestFailed u) | Some ts \<Rightarrow> Inr ts,
      st\<lparr>requests := requests st @ [u]\<rparr>)"
  using fetchTracklist_state [of env u st] fetchTracklist_result [of env u st]
  by (metis prod.collapse)

lemma process_episodes_Cons:
  "process_episodes env (e # es) acc st =
     (case tracklist_url e of
        None \<Rightarrow> process_episodes env es acc st
      | Some u \<Rightarrow>
          (case tracklist_page env u of
             None \<Rightarrow> (Inl (RequestFailed u), st\<lparr>requests := requests st @ [u]\<rparr>)
           | Some ts \<Rightarrow>
               process_episodes env es (foldl (\<lambda>s track. set_add s (stringify track)) acc ts)
                 (st\<lparr>requests := requests st @ [u]\<rparr>)))"
  by (simp add: tracklist_url_def fetchTracklist_eq split: option.splits)

declare process_episodes.simps(2) [simp del]

lemma process_episodes_frame:
  "process_episodes env es acc st = (r, st') \<Longrightarrow> \<exists>rs. st' = st\<lparr>requests := requests st @ rs\<rparr>"
proof (induction es arbitrary: acc st)
  case Nil
  then have "st' = st\<lparr>requests := requests st @ []\<rparr>" by simp
  then show ?case by blast
next
  case (Cons e es)
  show ?case
  proof (cases "tracklist_url e")
    case None
    with Cons show ?thesis by (simp only: process_episodes_Cons option.case)
  next
    case (Some u)
    show ?thesis
    proof (cases "tracklist_page env u")
      case None
      with Some Cons.prems have "st' = st\<lparr>requests := requests st @ [u]\<rparr>"
        by (simp add: process_episodes_Cons)
      then show ?thesis by blast
    next
      case (Some ts)
      with \<open>tracklist_url e = Some u\<close> Cons.prems
      have "process_episodes env es (foldl (\<lambda>s track. set_add s (stringify track)) acc ts)
                 (st\<lparr>requests := requests st @ [u]\<rparr>) = (r, st')"
        by (simp add: process_episodes_Cons)
      from Cons.IH [OF this] obtain rs where "st' = st\<lparr>requests := requests st @ u # rs\<rparr>"
        by auto
      then show ?thesis by blast
    qed
  qed
qed

lemma process_episodes_success:
  "process_episodes env es (map stringify acc) st = (Inr r, st') \<Longrightarrow>
     r = map stringify (foldl spec_add acc (fetched_tracks env es))
     \<and> st' = st\<lparr>requests := requests st @ tracklist_urls es\<rparr>"
proof (induction es arbitrary: acc st)
  case Nil
  then show ?case by (simp add: fetched_tracks_def tracklist_urls_def)
next
  case (Cons e es)
  show ?case
  proof (cases "tracklist_url e")
    case None
    with Cons.prems have "process_episodes env es (map stringify acc) st = (Inr r, st')"
      by (simp add: process_episodes_Cons)
    from Cons.IH [OF this] None show ?thesis
      by (simp add: fetched_tracks_def tracklist_urls_def episode_tracks_def)
  next
    case (Some u)
    show ?thesis
    proof (cases "tracklist_page env u")
      case None
      with Some Cons.prems show ?thesis by (simp add: process_episodes_Cons)
    next
      case (Some ts)
      with \<open>tracklist_url e = Some u\<close> Cons.prems
      have "process_episodes env es (map stringify (foldl spec_add acc ts))
                 (st\<lparr>requests := requests st @ [u]\<rparr>) = (Inr r, st')"
        by (simp add: process_episodes_Cons foldl_set_add_stringify)
      from Cons.IH [OF this] Some \<open>tracklist_url e = Some u\<close> show ?thesis
        by (simp add: fetched_tracks_def tracklist_urls_def episode_tracks_def)
    qed
  qed
qed

lemma fetch_loop_frame:
  assumes "fetch_loop env p acc off st = Some y"
  shows "\<exists>rs. snd y = st\<lparr>requests := requests st @ episodes_url p off # rs\<rparr>"
proof (rule fetch_loop.raw_induct
    [where P = "\<lambda>env p acc off st y. \<exists>rs. snd y = st\<lparr>requests := requests st @ episodes_url p off # rs\<rparr>",
     OF _ assms], goal_cases)
  case (1 loop env p acc off st y)
  show ?case
  proof (cases "episodes_page env (episodes_url p off)")
    case None
    with 1(2) have "snd y = st\<lparr>requests := requests st @ episodes_url p off # []\<rparr>"
      by (auto simp: Let_def)
    then show ?thesis by blast
  next
    case (Some es)
    show ?thesis
    proof (cases "es = []")
      case True
      with Some 1(2) have "snd y = st\<lparr>requests := requests st @ episodes_url p off # []\<rparr>"
        by (auto simp: Let_def)
      then show ?thesis by blast
    next
      case False
      with Some 1(2) have "loop env p (acc @ es) (off + limit)
          (st\<lparr>requests := requests st @ [episodes_url p off]\<rparr>) = Some y"
        by (simp add: Let_def)
      from 1(1) [OF this] obtain rs where
        "snd y = st\<lparr>requests := requests st @ episodes_url p off # episodes_url p (off + limit) # rs\<rparr>"
        by auto
      then show ?thesis by blast
    qed
  qed
qed


lemma merged_keys:
  "parse_all (foldl (\<lambda>s track. set_add s (stringify track)) (new_Set (map stringify existing)) tracks)
     = Inr (spec_merge existing tracks)"
  by (simp add: spec_merge_def new_Set_stringify foldl_set_add_stringify parse_all_stringify)

lemma saveTracklist_eq:
  "saveTracklist env n tracks dir st =
     (case files st (output_path dir n) of
        Some (CheckpointObject obj) \<Rightarrow> Inl NotAnArray
      | _ \<Rightarrow>
          if can_write env (output_path dir n)
          then Inr (st\<lparr>files := (files st)(output_path dir n \<mapsto>
                  TrackArray (spec_merge (existing_tracks (files st) (output_path dir n)) tracks))\<rparr>)
          else Inl (WriteFailed (output_path dir n)))"
proof (cases "files st (output_path dir n)")
  case None
  then show ?thesis
    using merged_keys [of "[]" tracks]
    by (simp add: saveTracklist_def Let_def existing_tracks_def)
next
  case (Some d)
  then show ?thesis
  proof (cases d)
    case Garbage
    with Some show ?thesis
      using merged_keys [of "[]" tracks]
      by (simp add: saveTracklist_def Let_def existing_tracks_def)
  next
    case (TrackArray ts)
    with Some show ?thesis
      using merged_keys [of ts tracks]
      by (simp add: saveTracklist_def Let_def existing_tracks_def)
  next
    case (CheckpointObject obj)
    with Some show ?thesis
      by (simp add: saveTracklist_def Let_def)
  qed
qed

lemma processShow_try_eq:
  "processShow_try env show dir st =
     (case fetchAllEpisodes env (path show) (includes_str (path show) ''/guests/'') st of
        None \<Rightarrow> None
      | Some (Inl e, st1) \<Rightarrow> Some (Inl e, st1)
      | Some (Inr episodes, st1) \<Rightarrow>
          (case process_episodes env episodes [] st1 of
             (Inl e, st2) \<Rightarrow> Some (Inl e, st2)
           | (Inr allTracks, st2) \<Rightarrow>
               (case saveTracklist env (Show.name show) (foldl spec_add [] (fetched_tracks env episodes)) dir st2 of
                  Inl e \<Rightarrow> Some (Inl e, st2)
                | Inr st3 \<Rightarrow>
                    (if can_write env ''checkpoint.json''
                     then Some (Inr (),
                            st3\<lparr>count := count st3 + length (foldl spec_add [] (fetched_tracks env episodes)),
                                checkpoint := checkpoint_set (checkpoint st3) (Show.name show),
                                files := (files st3)(''checkpoint.json'' \<mapsto>
                                   CheckpointObject (checkpoint_set (checkpoint st3) (Show.name show)))\<rparr>)
                     else Some (Inl (WriteFailed ''checkpoint.json''),
                            st3\<lparr>count := count st3 + length (foldl spec_add [] (fetched_tracks env episodes)),
                                checkpoint := checkpoint_set (checkpoint st3) (Show.name show)\<rparr>)))))"
proof -
  have pe: "process_episodes env episodes [] st1 = (Inr allTracks, st2) \<Longrightarrow>
      allTracks = map stringify (foldl spec_add [] (fetched_tracks env episodes))"
    for episodes st1 allTracks st2
    using process_episodes_success [of env episodes "[]" st1 allTracks st2] by simp
  show ?thesis
    unfolding processShow_try_def Let_def
    by (auto split: option.splits sum.splits prod.splits dest!: pe simp: parse_all_stringify)
qed

section \<open>Paths and sanitised names\<close>

lemma split_path_not_Nil: "split_path p \<noteq> []"
  by (induction p) (auto split: list.splits)

lemma split_path_plain: "CHR ''/'' \<notin> set b \<Longrightarrow> split_path b = [b]"
  by (induction b) auto

lemma split_path_append: "split_path (a @ CHR ''/'' # b) = split_path a @ split_path b"
proof (induction a)
  case Nil
  then show ?case by simp
next
  case (Cons c a)
  then show ?case
    using split_path_not_Nil [of a] by (cases "split_path a") auto
qed

lemma split_path_slash_free: "seg \<in> set (split_path p) \<Longrightarrow> CHR ''/'' \<notin> set seg"
proof (induction p arbitrary: seg)
  case Nil
  then show ?case by simp
next
  case (Cons c p)
  then show ?case
    using split_path_not_Nil [of p]
    by (cases "split_path p") (auto split: if_splits)
qed

lemma push_segment_plain: "plain_segment seg \<Longrightarrow> push_segment allow res seg = res @ [seg]"
  by (auto simp: push_segment_def plain_segment_def)

lemma join_segments_snoc:
  "join_segments (s @ [b]) = (if s = [] then b else join_segments s @ CHR ''/'' # b)"
  by (induction s rule: join_segments.induct) auto

lemma join_segments_Nil_iff: "[] \<notin> set s \<Longrightarrow> join_segments s = [] \<longleftrightarrow> s = []"
  by (induction s rule: join_segments.induct) auto

lemma plain_segment_ends:
  assumes "plain_segment b"
  shows "b \<noteq> []" "hd b \<noteq> CHR ''/''" "last b \<noteq> CHR ''/''"
proof -
  show ne: "b \<noteq> []" using assms by (simp add: plain_segment_def)
  show "hd b \<noteq> CHR ''/''"
    using assms ne by (metis hd_in_set plain_segment_def)
  show "last b \<noteq> CHR ''/''"
    using assms ne by (metis last_in_set plain_segment_def)
qed

lemma normalize_snoc_plain:
  assumes "plain_segment b"
  shows "normalize (a @ CHR ''/'' # b) =
     (if a = [] \<or> hd a = CHR ''/'' then ''/'' else []) @
     join_segments (foldl (push_segment (\<not> (a = [] \<or> hd a = CHR ''/''))) [] (split_path a) @ [b])"
proof -
  have sp: "split_path (a @ CHR ''/'' # b) = split_path a @ [b]"
    using assms by (simp add: split_path_append split_path_plain plain_segment_def)
  have hd: "(hd (a @ CHR ''/'' # b) = CHR ''/'') = (a = [] \<or> hd a = CHR ''/'')"
    by (cases a) auto
  have lst: "last (a @ CHR ''/'' # b) \<noteq> CHR ''/''"
    using plain_segment_ends [OF assms] by simp
  have ne: "join_segments (s @ [b]) \<noteq> []" for s
    using assms by (simp add: join_segments_snoc plain_segment_def)
  show ?thesis
    unfolding normalize_def normalizeString_def Let_def hd sp
    using lst
    by (simp add: push_segment_plain [OF assms] ne)
qed

lemma normalize_plain:
  assumes "plain_segment b"
  shows "normalize b = b"
proof -
  have "hd b \<noteq> CHR ''/''" "last b \<noteq> CHR ''/''" "b \<noteq> []"
    using plain_segment_ends [OF assms] by simp_all
  then show ?thesis
    using assms
    by (simp add: normalize_def normalizeString_def Let_def split_path_plain plain_segment_def
        push_segment_plain)
qed


lemma replace_slashes_slash_free: "CHR ''/'' \<notin> set (replace_slashes s)"
  by (auto simp: replace_slashes_def)

lemma file_name_plain: "plain_segment (sanitize n @ ''_tracklist.json'')"
  using replace_slashes_slash_free [of "replace_spaces (toLowerCase n)"]
  by (auto simp: plain_segment_def sanitize_def append_eq_Cons_conv)



lemma of_char_lower_char:
  "(of_char (lower_char c) :: nat) =
     (let n = of_char c in if (65 \<le> n \<and> n \<le> 90) \<or> (192 \<le> n \<and> n \<le> 222 \<and> n \<noteq> 215) then n + 32 else n)"
  by (auto simp: lower_char_def Let_def)

lemma is_space_lower_char: "is_space (lower_char c) = is_space c"
  by (auto simp: is_space_def of_char_lower_char Let_def)

lemma lower_char_slash: "(lower_char c = CHR ''/'') = (c = CHR ''/'')"
proof
  assume "lower_char c = CHR ''/''"
  then have "(of_char (lower_char c) :: nat) = 47" by simp
  then have "(of_char c :: nat) = 47"
    by (auto simp: of_char_lower_char Let_def split: if_splits)
  then have "(of_char c :: nat) = of_char (CHR ''/'')" by simp
  then show "c = CHR ''/''" by (simp only: of_char_eq_iff)
next
  assume "c = CHR ''/''"
  then show "lower_char c = CHR ''/''" by (simp add: lower_char_def)
qed

lemma replace_spaces_no_space: "\<forall>c\<in>set s. \<not> is_space c \<Longrightarrow> replace_spaces s = s"
  by (induction s) auto

lemma replace_spaces_run:
  assumes "w \<noteq> []" "\<forall>c\<in>set w. is_space c" "b = [] \<or> \<not> is_space (hd b)"
  shows "replace_spaces (w @ b) = CHR ''_'' # replace_spaces b"
proof -
  obtain c w' where w: "w = c # w'" using assms(1) by (cases w) auto
  have "dropWhile is_space (w' @ b) = b"
    using assms(2,3) w by (cases b) (auto simp: dropWhile_append)
  with assms(2) w show ?thesis by simp
qed

lemma replace_spaces_append:
  assumes "a = [] \<or> \<not> is_space (last a)"
  shows "replace_spaces (a @ s) = replace_spaces a @ replace_spaces s"
  using assms
proof (induction a rule: replace_spaces.induct)
  case 1
  then show ?case by simp
next
  case (2 c cs)
  show ?case
  proof (cases "is_space c")
    case False
    with 2 show ?thesis by (cases cs) auto
  next
    case True
    with 2(3) have cs: "cs \<noteq> []" by auto
    define r where "r = dropWhile is_space cs"
    have lastcs: "\<not> is_space (last cs)" using 2(3) cs by simp
    then have rne: "r \<noteq> []"
      unfolding r_def using cs by (metis dropWhile_eq_Nil_conv last_in_set)
    have "last r = last cs"
      unfolding r_def using rne r_def
      by (metis append_Nil2 last_appendR takeWhile_dropWhile_id)
    with lastcs have lr: "r = [] \<or> \<not> is_space (last r)" by simp
    have dw: "dropWhile is_space (cs @ s) = r @ s"
      unfolding r_def using lastcs cs
      by (metis dropWhile_append1 dropWhile_eq_Nil_conv last_in_set rne r_def)
    from 2(1) [OF True] lr have "replace_spaces (r @ s) = replace_spaces r @ replace_spaces s"
      by (simp add: r_def)
    with True dw show ?thesis by (simp add: r_def)
  qed
qed

lemma sanitize_no_space:
  "\<forall>c\<in>set s. \<not> is_space c \<Longrightarrow>
     sanitize s = map (\<lambda>c. if c = CHR ''/'' then CHR ''_'' else lower_char c) s"
  by (simp add: sanitize_def toLowerCase_def replace_spaces_no_space is_space_lower_char
      replace_slashes_def lower_char_slash)

lemma sanitize_run:
  assumes "w \<noteq> []" "\<forall>c\<in>set w. is_space c"
    and "a = [] \<or> \<not> is_space (last a)" and "b = [] \<or> \<not> is_space (hd b)"
  shows "sanitize (a @ w @ b) = sanitize a @ CHR ''_'' # sanitize b"
proof -
  let ?l = "map lower_char"
  have a: "?l a = [] \<or> \<not> is_space (last (?l a))"
    using assms(3) by (auto simp: last_map is_space_lower_char)
  have b: "?l b = [] \<or> \<not> is_space (hd (?l b))"
    using assms(4) by (auto simp: hd_map is_space_lower_char)
  have w: "?l w \<noteq> []" "\<forall>c\<in>set (?l w). is_space c"
    using assms(1,2) by (auto simp: is_space_lower_char)
  have "replace_spaces (?l a @ ?l w @ ?l b)
      = replace_spaces (?l a) @ CHR ''_'' # replace_spaces (?l b)"
    by (simp add: replace_spaces_append [OF a] replace_spaces_run [OF w b])
  then show ?thesis
    by (simp add: sanitize_def toLowerCase_def replace_slashes_def)
qed

lemma normal_stack_Nil: "normal_stack []"
  by (simp add: normal_stack_def)

lemma normal_stack_segment:
  assumes "normal_stack s" "x \<in> set s"
  shows "x \<noteq> []" "CHR ''/'' \<notin> set x"
proof -
  from assms obtain d ns where s: "s = d @ ns" "set d \<subseteq> {''..''}"
    "\<forall>y\<in>set ns. plain_segment y"
    by (auto simp: normal_stack_def)
  from assms(2) s(1) have "x \<in> set d \<or> x \<in> set ns" by simp
  then have "x = ''..'' \<or> plain_segment x" using s(2,3) by auto
  then show "x \<noteq> []" "CHR ''/'' \<notin> set x" by (auto simp: plain_segment_def)
qed

lemma push_segment_normal:
  assumes "normal_stack s" "CHR ''/'' \<notin> set seg"
  shows "normal_stack (push_segment True s seg)"
proof -
  from assms(1) obtain d ns where s: "s = d @ ns" "set d \<subseteq> {''..''}"
    "\<forall>x\<in>set ns. plain_segment x"
    by (auto simp: normal_stack_def)
  show ?thesis
  proof (cases "seg = [] \<or> seg = ''.''")
    case True
    with assms(1) show ?thesis by (auto simp: push_segment_def)
  next
    case skip: False
    show ?thesis
    proof (cases "seg = ''..''")
      case False
      with skip assms(2) have "plain_segment seg" by (simp add: plain_segment_def)
      then have "push_segment True s seg = d @ (ns @ [seg])"
        by (simp add: push_segment_plain s(1))
      moreover have "\<forall>x\<in>set (ns @ [seg]). plain_segment x"
        using s(3) \<open>plain_segment seg\<close> by simp
      ultimately show ?thesis using s(2) unfolding normal_stack_def by blast
    next
      case True
      show ?thesis
      proof (cases "ns = []")
        case True
        with s have "s = [] \<or> last s = ''..''"
          by (cases d rule: rev_cases) auto
        with \<open>seg = ''..''\<close> have "push_segment True s seg = (d @ [''..'']) @ []"
          using s(1) True by (auto simp: push_segment_def)
        moreover have "set (d @ [''..'']) \<subseteq> {''..''}" using s(2) by simp
        ultimately show ?thesis unfolding normal_stack_def by (metis empty_iff empty_set)
      next
        case False
        then have "last s = last ns" "s \<noteq> []" using s(1) by simp_all
        moreover have "last ns \<noteq> ''..''"
          using s(3) False by (metis last_in_set plain_segment_def)
        ultimately have "push_segment True s seg = d @ butlast ns"
          using \<open>seg = ''..''\<close> s(1) False by (simp add: push_segment_def butlast_append)
        moreover have "\<forall>x\<in>set (butlast ns). plain_segment x"
          using s(3) by (meson in_set_butlastD)
        ultimately show ?thesis using s(2) unfolding normal_stack_def by blast
      qed
    qed
  qed
qed

lemma foldl_push_normal:
  assumes "normal_stack acc" "\<forall>seg\<in>set segs. CHR ''/'' \<notin> set seg"
  shows "normal_stack (foldl (push_segment True) acc segs)"
  using assms by (induction segs arbitrary: acc) (simp_all add: push_segment_normal)

lemma push_segment_fixed:
  assumes "normal_stack (acc @ x # xs)"
  shows "push_segment True acc x = acc @ [x]"
proof -
  from assms obtain d ns where s: "acc @ x # xs = d @ ns" "set d \<subseteq> {''..''}"
    "\<forall>y\<in>set ns. plain_segment y"
    by (auto simp: normal_stack_def)
  show ?thesis
  proof (cases "plain_segment x")
    case True
    then show ?thesis by (simp add: push_segment_plain)
  next
    case False
    from s(1) consider u where "acc = d @ u" "u @ x # xs = ns"
      | u where "acc @ u = d" "x # xs = u @ ns"
      by (auto simp: append_eq_append_conv2)
    then show ?thesis
    proof cases
      case 1
      then have "x \<in> set ns" by auto
      with s(3) False show ?thesis by blast
    next
      case 2
      have "u \<noteq> []"
      proof
        assume "u = []"
        with 2 have "x \<in> set ns" by (metis append_Nil list.set_intros(1))
        with s(3) False show False by blast
      qed
      with 2 have "x \<in> set d" by (cases u) auto
      with s(2) have x: "x = ''..''" by auto
      from 2 s(2) have "set acc \<subseteq> {''..''}" by auto
      then have "acc = [] \<or> last acc = ''..''"
        by (cases acc rule: rev_cases) auto
      with x show ?thesis by (auto simp: push_segment_def)
    qed
  qed
qed

lemma foldl_push_fixed:
  "normal_stack (acc @ s) \<Longrightarrow> foldl (push_segment True) acc s = acc @ s"
proof (induction s arbitrary: acc)
  case Nil
  then show ?case by simp
next
  case (Cons x xs)
  from Cons.prems have "push_segment True acc x = acc @ [x]" by (rule push_segment_fixed)
  moreover from Cons.prems have "normal_stack ((acc @ [x]) @ xs)" by simp
  ultimately show ?case using Cons.IH [of "acc @ [x]"] by simp
qed

lemma split_path_join_segments:
  assumes "s \<noteq> []" "\<forall>x\<in>set s. CHR ''/'' \<notin> set x"
  shows "split_path (join_segments s) = s"
  using assms
  by (induction s rule: join_segments.induct) (simp_all add: split_path_plain split_path_append)

lemma hd_join_segments: "s \<noteq> [] \<Longrightarrow> hd s \<noteq> [] \<Longrightarrow> hd (join_segments s) = hd (hd s)"
  by (induction s rule: join_segments.induct) auto

text \<open>Normalising a relative path and appending a plain segment, in either order.\<close>

lemma normalize_then_join:
  assumes rel: "p \<noteq> []" "hd p \<noteq> CHR ''/''" and f: "plain_segment f"
  shows "path_join (normalize p) f = normalize (p @ CHR ''/'' # f)"
proof -
  define S where "S = foldl (push_segment True) [] (split_path p)"
  have nS: "normal_stack S"
    unfolding S_def by (rule foldl_push_normal) (auto simp: normal_stack_Nil dest: split_path_slash_free)
  have rhs: "normalize (p @ CHR ''/'' # f) = join_segments (S @ [f])"
    using rel by (simp add: normalize_snoc_plain [OF f] S_def)
  define F where "F = normalize p"
  have F: "F = (if join_segments S = [] then (if last p = CHR ''/'' then ''./'' else ''.'')
                else join_segments S @ (if last p = CHR ''/'' then ''/'' else []))"
    unfolding F_def using rel by (simp add: normalize_def normalizeString_def Let_def S_def)
  have segs: "[] \<notin> set S" "\<forall>x\<in>set S. CHR ''/'' \<notin> set x"
    using normal_stack_segment [OF nS] by auto
  have "F \<noteq> [] \<and> hd F \<noteq> CHR ''/'' \<and> foldl (push_segment True) [] (split_path F) = S"
  proof (cases "S = []")
    case True
    then show ?thesis by (auto simp: F push_segment_def)
  next
    case False
    then have j: "join_segments S \<noteq> []" using segs(1) by (simp add: join_segments_Nil_iff)
    have "hd S \<noteq> []" using False segs(1) by (metis hd_in_set)
    then have "hd (join_segments S) = hd (hd S)" using False by (simp add: hd_join_segments)
    moreover have "hd (hd S) \<noteq> CHR ''/''"
      using False segs(2) \<open>hd S \<noteq> []\<close> by (metis hd_in_set)
    ultimately have h: "hd (join_segments S) \<noteq> CHR ''/''" by simp
    have sp: "split_path (join_segments S) = S"
      using False segs(2) by (rule split_path_join_segments)
    have fx: "foldl (push_segment True) [] S = S"
      using foldl_push_fixed [of "[]" S] nS by simp
    show ?thesis
      using j h by (auto simp: F sp fx split_path_append push_segment_def)
  qed
  then have "path_join F f = join_segments (S @ [f])"
    using f by (simp add: path_join_def plain_segment_def normalize_snoc_plain [OF f])
  with rhs show ?thesis by (simp add: F_def)
qed


lemma plain_outputDir: "plain_segment outputDir"
  by (simp add: plain_segment_def outputDir_def)

lemma output_path_normalize:
  "output_path (path_join outputDir mixtapeAlias) showName
     = normalize (outputDir @ CHR ''/'' # mixtapeAlias @ CHR ''/'' # sanitize showName @ ''_tracklist.json'')"
proof -
  let ?f = "sanitize showName @ ''_tracklist.json''"
  have f: "plain_segment ?f" by (rule file_name_plain)
  have od: "outputDir \<noteq> []" "hd outputDir \<noteq> CHR ''/''"
    by (simp_all add: outputDir_def)
  show ?thesis
  proof (cases "mixtapeAlias = []")
    case True
    have sp: "split_path (outputDir @ ''/'') = split_path outputDir @ [[]]"
      using split_path_append [of outputDir "[]"] by simp
    have "path_join outputDir mixtapeAlias = outputDir"
      using True od by (simp add: path_join_def normalize_plain [OF plain_outputDir])
    then have "output_path (path_join outputDir mixtapeAlias) showName = normalize (outputDir @ CHR ''/'' # ?f)"
      using od f by (simp add: output_path_def path_join_def plain_segment_def)
    also have "\<dots> = normalize ((outputDir @ ''/'') @ CHR ''/'' # ?f)"
      using od normalize_snoc_plain [OF f, of outputDir] normalize_snoc_plain [OF f, of "outputDir @ ''/''"]
      by (simp add: sp push_segment_def)
    finally show ?thesis using True by simp
  next
    case False
    let ?p = "outputDir @ CHR ''/'' # mixtapeAlias"
    have "path_join outputDir mixtapeAlias = normalize ?p"
      using False od by (simp add: path_join_def)
    moreover have "?p \<noteq> []" "hd ?p \<noteq> CHR ''/''" using od by simp_all
    ultimately have "output_path (path_join outputDir mixtapeAlias) showName = normalize (?p @ CHR ''/'' # ?f)"
      using normalize_then_join [of ?p ?f] f by (simp add: output_path_def)
    then show ?thesis by simp
  qed
qed

lemma output_path_plain_alias:
  assumes "plain_segment mixtapeAlias"
  shows "output_path (path_join outputDir mixtapeAlias) showName
     = outputDir @ CHR ''/'' # mixtapeAlias @ CHR ''/'' # sanitize showName @ ''_tracklist.json''"
proof -
  let ?f = "sanitize showName @ ''_tracklist.json''"
  have f: "plain_segment ?f" by (rule file_name_plain)
  have od: "outputDir \<noteq> []" "hd outputDir \<noteq> CHR ''/''" "CHR ''/'' \<notin> set outputDir"
    by (simp_all add: outputDir_def)
  have "split_path (outputDir @ CHR ''/'' # mixtapeAlias) = [outputDir, mixtapeAlias]"
    using assms od by (simp add: split_path_append split_path_plain plain_segment_def)
  then have "normalize ((outputDir @ CHR ''/'' # mixtapeAlias) @ CHR ''/'' # ?f)
      = join_segments [outputDir, mixtapeAlias, ?f]"
    using od normalize_snoc_plain [OF f, of "outputDir @ CHR ''/'' # mixtapeAlias"]
    by (simp add: push_segment_plain assms plain_outputDir)
  then show ?thesis
    by (simp add: output_path_normalize)
qed

text \<open>
  C8. The output file of a show is the join, by \<^verbatim>\<open>path.join\<close>, of the output root
  \<open>nts_tracklists\<close>, the alias of the mixtape and the sanitised name of the show followed by
  \<open>_tracklist.json\<close>: the normal form of the three parts put together with slashes, which
  is this very text whenever the alias is a plain directory name. Sanitising lowers the
  case of every character, then replaces each run of white space (also one at the start
  or at the end of the name) by one underscore, then each slash by an underscore.
\<close>

theorem output_file_path:
  "output_path (path_join outputDir mixtapeAlias) showName
     = normalize (''nts_tracklists/'' @ mixtapeAlias @ ''/'' @ sanitize showName @ ''_tracklist.json'')
   \<and> (plain_segment mixtapeAlias \<longrightarrow>
        output_path (path_join outputDir mixtapeAlias) showName
          = ''nts_tracklists/'' @ mixtapeAlias @ ''/'' @ sanitize showName @ ''_tracklist.json'')
   \<and> ((\<forall>c\<in>set showName. \<not> is_space c) \<longrightarrow>
        sanitize showName = map (\<lambda>c. if c = CHR ''/'' then CHR ''_'' else lower_char c) showName)
   \<and> (w \<noteq> [] \<and> (\<forall>c\<in>set w. is_space c) \<and> (a = [] \<or> \<not> is_space (last a))
        \<and> (b = [] \<or> \<not> is_space (hd b)) \<longrightarrow>
        sanitize (a @ w @ b) = sanitize a @ ''_'' @ sanitize b)"
  using output_path_normalize [of mixtapeAlias showName] output_path_plain_alias [of mixtapeAlias showName]
    sanitize_no_space [of showName] sanitize_run [of w a b]
  by (simp add: outputDir_def)

theorem output_file_path_witness:
  "output_path (path_join outputDir ''poolside'') ''Foo  Bar/Baz''
     = ''nts_tracklists/poolside/foo_bar_baz_tracklist.json''
   \<and> sanitize '' A  b '' = ''_a_b_''"
proof -
  have "plain_segment ''poolside''" by (simp add: plain_segment_def)
  then have "output_path (path_join outputDir ''poolside'') ''Foo  Bar/Baz''
      = ''nts_tracklists/'' @ ''poolside'' @ ''/'' @ sanitize ''Foo  Bar/Baz'' @ ''_tracklist.json''"
    using output_file_path [of "''poolside''" "''Foo  Bar/Baz''"] by blast
  moreover have "sanitize ''Foo  Bar/Baz'' = ''foo_bar_baz''"
    by code_simp
  moreover have "sanitize '' A  b '' = ''_a_b_''"
    by code_simp
  ultimately show ?thesis by simp
qed

section \<open>Processing one show\<close>

lemma includes_str_iff: "includes_str s sub \<longleftrightarrow> (\<exists>u v. s = u @ sub @ v)"
proof (induction s)
  case Nil
  then show ?case by auto
next
  case (Cons c cs)
  show ?case
  proof
    assume "includes_str (c # cs) sub"
    then consider "prefix sub (c # cs)" | "includes_str cs sub" by auto
    then show "\<exists>u v. c # cs = u @ sub @ v"
    proof cases
      case 1
      then obtain v where "c # cs = [] @ sub @ v" by (auto simp: prefix_def)
      then show ?thesis by blast
    next
      case 2
      with Cons obtain u v where "cs = u @ sub @ v" by blast
      then have "c # cs = (c # u) @ sub @ v" by simp
      then show ?thesis by blast
    qed
  next
    assume "\<exists>u v. c # cs = u @ sub @ v"
    then obtain u v where uv: "c # cs = u @ sub @ v" by blast
    show "includes_str (c # cs) sub"
    proof (cases u)
      case Nil
      with uv have "prefix sub (c # cs)" by (simp add: prefix_def)
      then show ?thesis by simp
    next
      case (Cons a u')
      with uv have "cs = u' @ sub @ v" by simp
      with Cons.IH show ?thesis by auto
    qed
  qed
qed





lemma processShow_try_guest:
  assumes "includes_str (path show) ''/guests/''"
  shows "processShow_try env show dir st =
     (case tracklist_page env (baseUrl @ path show @ ''/tracklist'') of
        None \<Rightarrow> Some (Inl (RequestFailed (baseUrl @ path show @ ''/tracklist'')),
                     st\<lparr>requests := requests st @ [baseUrl @ path show @ ''/tracklist'']\<rparr>)
      | Some ts \<Rightarrow>
          (case saveTracklist env (Show.name show) (foldl spec_add [] ts) dir
                  (st\<lparr>requests := requests st @ [baseUrl @ path show @ ''/tracklist'']\<rparr>) of
             Inl e \<Rightarrow> Some (Inl e, st\<lparr>requests := requests st @ [baseUrl @ path show @ ''/tracklist'']\<rparr>)
           | Inr st3 \<Rightarrow>
               (if can_write env ''checkpoint.json''
                then Some (Inr (),
                       st3\<lparr>count := count st3 + length (foldl spec_add [] ts),
                           checkpoint := checkpoint_set (checkpoint st3) (Show.name show),
                           files := (files st3)(''checkpoint.json'' \<mapsto>
                              CheckpointObject (checkpoint_set (checkpoint st3) (Show.name show)))\<rparr>)
                else Some (Inl (WriteFailed ''checkpoint.json''),
                       st3\<lparr>count := count st3 + length (foldl spec_add [] ts),
                           checkpoint := checkpoint_set (checkpoint st3) (Show.name show)\<rparr>))))"
proof -
  let ?u = "baseUrl @ path show @ ''/tracklist''"
  let ?e = "\<lparr>name = '''', links = [\<lparr>rel = ''tracklist'', href = ?u\<rparr>]\<rparr>"
  have u: "tracklist_url ?e = Some ?u"
    by (simp add: tracklist_url_def baseUrl_def)
  have f: "fetchAllEpisodes env (path show) (includes_str (path show) ''/guests/'') st = Some (Inr [?e], st)"
    using assms by (simp add: fetchAllEpisodes_def)
  show ?thesis
  proof (cases "tracklist_page env ?u")
    case None
    then show ?thesis
      by (simp add: processShow_try_eq f process_episodes_Cons u)
  next
    case (Some ts)
    then have ft: "fetched_tracks env [?e] = ts"
      by (simp add: fetched_tracks_def episode_tracks_def u)
    from Some show ?thesis
      by (simp add: processShow_try_eq f process_episodes_Cons u ft split: sum.splits)
  qed
qed







section \<open>The example shows\<close>

lemma tracks_distinct [simp]:
  "track_A \<noteq> track_B" "track_A \<noteq> track_C" "track_B \<noteq> track_C"
  "track_B \<noteq> track_A" "track_C \<noteq> track_A" "track_C \<noteq> track_B"
  by (simp_all add: track_A_def track_B_def track_C_def)

lemma guest_paths:
  "includes_str (path good_show) ''/guests/''"
  "includes_str (path bad_show) ''/guests/''"
  "includes_str (path other_show) ''/guests/''"
  by (simp_all add: good_show_def bad_show_def other_show_def)

lemma guest_tracklists:
  "tracklist_page guest_env (baseUrl @ path good_show @ ''/tracklist'') = Some [track_A, track_A, track_B]"
  "tracklist_page guest_env (baseUrl @ path bad_show @ ''/tracklist'') = None"
  "tracklist_page guest_env (baseUrl @ path other_show @ ''/tracklist'') = Some [track_C]"
  by (simp_all add: guest_env_def baseUrl_def good_show_def bad_show_def other_show_def)

lemma guest_urls:
  "baseUrl @ path good_show @ ''/tracklist'' = ''https://www.nts.live/api/v2/guests/good/tracklist''"
  "baseUrl @ path bad_show @ ''/tracklist'' = ''https://www.nts.live/api/v2/guests/bad/tracklist''"
  "baseUrl @ path other_show @ ''/tracklist'' = ''https://www.nts.live/api/v2/guests/other/tracklist''"
  by (simp_all add: baseUrl_def good_show_def bad_show_def other_show_def)

lemma guest_names:
  "Show.name good_show = ''Good''" "Show.name bad_show = ''Bad''" "Show.name other_show = ''Other''"
  by (simp_all add: good_show_def bad_show_def other_show_def)

lemma guest_env_writes: "can_write guest_env p"
  by (simp add: guest_env_def)

lemma processShow_try_good:
  assumes "\<forall>obj. files st (output_path dir ''Good'') \<noteq> Some (CheckpointObject obj)"
  shows "processShow_try guest_env good_show dir st =
     Some (Inr (),
       st\<lparr>requests := requests st @ [''https://www.nts.live/api/v2/guests/good/tracklist''],
          files := (files st)
            (output_path dir ''Good'' \<mapsto>
               TrackArray (spec_merge (existing_tracks (files st) (output_path dir ''Good''))
                             [track_A, track_B]),
             ''checkpoint.json'' \<mapsto> CheckpointObject ((checkpoint st)(''Good'' \<mapsto> True))),
          count := count st + 2,
          checkpoint := (checkpoint st)(''Good'' \<mapsto> True)\<rparr>)"
  using assms
  by (simp add: processShow_try_guest [OF guest_paths(1)] guest_tracklists guest_names
      saveTracklist_eq guest_env_writes spec_add_def checkpoint_set_def
      split: option.splits file_data.splits)
    (simp add: guest_urls)




section \<open>Episodes without a tracklist\<close>

lemma tracklist_url_None:
  assumes "\<forall>link\<in>set (links episode). rel link \<noteq> ''tracklist''"
  shows "tracklist_url episode = None"
proof -
  have "find (\<lambda>link. rel link = ''tracklist'') (links episode) = None"
    using assms by (auto simp: find_None_iff)
  then show ?thesis by (simp add: tracklist_url_def)
qed

text \<open>
  C10. An episode none of whose links has the \<open>rel\<close> \<open>tracklist\<close> causes no request and adds
  no track: the loop over the episodes gives the same set of tracks and the same state as
  the loop over the list without this episode, so the episodes after it are processed.
\<close>

theorem episode_without_tracklist:
  "(\<forall>link\<in>set (links episode). rel link \<noteq> ''tracklist'') \<longrightarrow>
     process_episodes env (before @ episode # after) allTracks st
       = process_episodes env (before @ after) allTracks st"
proof
  assume "\<forall>link\<in>set (links episode). rel link \<noteq> ''tracklist''"
  then have none: "tracklist_url episode = None" by (rule tracklist_url_None)
  show "process_episodes env (before @ episode # after) allTracks st
       = process_episodes env (before @ after) allTracks st"
  proof (induction before arbitrary: allTracks st)
    case Nil
    show ?case by (simp add: process_episodes_Cons none)
  next
    case (Cons e es)
    show ?case
      by (simp add: process_episodes_Cons Cons.IH split: option.splits)
  qed
qed

theorem episode_without_tracklist_witness:
  "process_episodes guest_env [bare_episode, linked_episode] [] empty_state
     = (Inr [stringify track_A, stringify track_B],
        empty_state\<lparr>requests := [''https://www.nts.live/api/v2/guests/good/tracklist'']\<rparr>)"
proof -
  have "\<forall>link\<in>set (links bare_episode). rel link \<noteq> ''tracklist''"
    by (simp add: bare_episode_def)
  with episode_without_tracklist [of bare_episode guest_env "[]" "[linked_episode]" "[]" empty_state]
  have "process_episodes guest_env [bare_episode, linked_episode] [] empty_state
      = process_episodes guest_env [linked_episode] [] empty_state"
    by simp
  moreover have "tracklist_url linked_episode = Some ''https://www.nts.live/api/v2/guests/good/tracklist''"
    by (simp add: tracklist_url_def linked_episode_def)
  moreover have "tracklist_page guest_env ''https://www.nts.live/api/v2/guests/good/tracklist''
      = Some [track_A, track_A, track_B]"
    by (simp add: guest_env_def)
  moreover have "stringify track_A \<noteq> stringify track_B"
    using stringify_inj [of track_A track_B] by auto
  ultimately show ?thesis
    by (simp add: process_episodes_Cons set_add_def empty_state_def)
qed

section \<open>Guest shows\<close>

text \<open>
  C9. A show is treated as a guest show exactly when its path contains \<open>/guests/\<close>.
  Then \<open>processShow\<close> returns after the one request for the tracklist of the show
  itself; otherwise its first request is the first page of the episodes, and it returns
  only if the pagination does.
\<close>

theorem guest_show_criterion:
  "(includes_str (path show) ''/guests/'' \<longleftrightarrow> (\<exists>u v. path show = u @ ''/guests/'' @ v))
   \<and> (includes_str (path show) ''/guests/'' \<longrightarrow>
        (\<exists>r st'. processShow_try env show dir st = Some (r, st')
           \<and> requests st' = requests st @ [baseUrl @ path show @ ''/tracklist'']))
   \<and> (\<not> includes_str (path show) ''/guests/'' \<longrightarrow>
        (processShow_try env show dir st = None \<longleftrightarrow> fetch_loop env (path show) [] 0 st = None)
        \<and> (\<forall>r st'. processShow_try env show dir st = Some (r, st') \<longrightarrow>
              (\<exists>rs. requests st' = requests st @ episodes_url (path show) 0 # rs)))"
proof (intro conjI impI allI)
  show "includes_str (path show) ''/guests/'' \<longleftrightarrow> (\<exists>u v. path show = u @ ''/guests/'' @ v)"
    by (rule includes_str_iff)
next
  assume g: "includes_str (path show) ''/guests/''"
  show "\<exists>r st'. processShow_try env show dir st = Some (r, st')
           \<and> requests st' = requests st @ [baseUrl @ path show @ ''/tracklist'']"
    by (auto simp: processShow_try_guest [OF g] saveTracklist_eq
        split: option.splits sum.splits file_data.splits)
next
  assume ng: "\<not> includes_str (path show) ''/guests/''"
  show "processShow_try env show dir st = None \<longleftrightarrow> fetch_loop env (path show) [] 0 st = None"
    using ng
    by (auto simp: processShow_try_eq fetchAllEpisodes_def
        split: option.splits sum.splits prod.splits)
next
  fix r st'
  assume ng: "\<not> includes_str (path show) ''/guests/''"
    and res: "processShow_try env show dir st = Some (r, st')"
  from res ng obtain r1 st1 where f: "fetch_loop env (path show) [] 0 st = Some (r1, st1)"
    by (auto simp: processShow_try_eq fetchAllEpisodes_def split: option.splits)
  from fetch_loop_frame [OF f] obtain rs where
    st1: "st1 = st\<lparr>requests := requests st @ episodes_url (path show) 0 # rs\<rparr>" by auto
  have "\<exists>rs2. requests st' = requests st1 @ rs2"
  proof (cases r1)
    case (Inl e)
    with res ng f have "st' = st1" by (simp add: processShow_try_eq fetchAllEpisodes_def)
    then show ?thesis by simp
  next
    case (Inr episodes)
    obtain r2 st2 where pe: "process_episodes env episodes [] st1 = (r2, st2)"
      by (cases "process_episodes env episodes [] st1") auto
    from process_episodes_frame [OF pe] obtain rs2 where
      st2: "st2 = st1\<lparr>requests := requests st1 @ rs2\<rparr>" by blast
    from res ng f Inr pe have "requests st' = requests st2"
      by (auto simp: processShow_try_eq fetchAllEpisodes_def saveTracklist_eq
          split: sum.splits if_splits option.splits file_data.splits)
    with st2 show ?thesis by simp
  qed
  with st1 show "\<exists>rs. requests st' = requests st @ episodes_url (path show) 0 # rs"
    by auto
qed

theorem guest_show_criterion_witness:
  "includes_str (path good_show) ''/guests/''
   \<and> \<not> includes_str ''/shows/foo'' ''/guests/''
   \<and> processShow_try guest_env good_show ''d'' empty_state =
        Some (Inr (),
          \<lparr>files = [output_path ''d'' ''Good'' \<mapsto> TrackArray [track_A, track_B],
                    ''checkpoint.json'' \<mapsto> CheckpointObject [''Good'' \<mapsto> True]],
           requests = [''https://www.nts.live/api/v2/guests/good/tracklist''],
           checkpoint = [''Good'' \<mapsto> True],
           count = 2\<rparr>)"
proof -
  have g: "includes_str (path good_show) ''/guests/''" by (rule guest_paths)
  with guest_show_criterion [of good_show guest_env "''d''" empty_state]
  obtain r st' where "processShow_try guest_env good_show ''d'' empty_state = Some (r, st')"
    by blast
  moreover have "\<not> includes_str ''/shows/foo'' ''/guests/''" by simp
  moreover have "processShow_try guest_env good_show ''d'' empty_state =
        Some (Inr (),
          \<lparr>files = [output_path ''d'' ''Good'' \<mapsto> TrackArray [track_A, track_B],
                    ''checkpoint.json'' \<mapsto> CheckpointObject [''Good'' \<mapsto> True]],
           requests = [''https://www.nts.live/api/v2/guests/good/tracklist''],
           checkpoint = [''Good'' \<mapsto> True],
           count = 2\<rparr>)"
    using processShow_try_good [of empty_state "''d''"]
    by (simp add: empty_state_def existing_tracks_def spec_merge_def spec_add_def)
  ultimately show ?thesis using g by simp
qed

section \<open>The running total\<close>




section \<open>Running the pipeline again\<close>





































section \<open>Failures and the checkpoint\<close>






section \<open>Shows that are already done\<close>






end
